theory Spec2Isabelle
  imports Complex_Main
begin

section \<open>Python values and errors\<close>

text \<open>
  The values that flow through the pipeline are the ones the XML converter builds (none,
  text, mappings, sequences) and the integers the field coercer writes. A mapping is an
  association list in insertion order, as a Python dict keeps it; the operations below
  never create a second entry for a key.
\<close>

datatype pyval =
    PNone
  | PStr string
  | PInt int
  | PDict "(string \<times> pyval) list"
  | PList "pyval list"

datatype error =
    ValueError
  | KeyError
  | TypeError
  | AttributeError
  | IndexError
  | LookupError
  | RequestException
  | ParseError
  | UnicodeDecodeError

text \<open>Truth value of an object in a condition (\<open>if x\<close>, \<open>not x\<close>, \<open>x or y\<close>).\<close>

fun truthy :: "pyval \<Rightarrow> bool" where
  "truthy PNone = False"
| "truthy (PStr s) = (s \<noteq> [])"
| "truthy (PInt n) = (n \<noteq> 0)"
| "truthy (PDict m) = (m \<noteq> [])"
| "truthy (PList xs) = (xs \<noteq> [])"

text \<open>\<open>d[k] = v\<close>: an existing key keeps its position, a new key goes last.\<close>

fun dict_set :: "string \<Rightarrow> 'v \<Rightarrow> (string \<times> 'v) list \<Rightarrow> (string \<times> 'v) list" where
  "dict_set k v [] = [(k, v)]"
| "dict_set k v (p # ps) = (if fst p = k then (k, v) # ps else p # dict_set k v ps)"

section \<open>Strings\<close>

text \<open>\<open>s.startswith(p)\<close>.\<close>

fun startswith :: "string \<Rightarrow> string \<Rightarrow> bool" where
  "startswith s [] = True"
| "startswith [] (p # ps) = False"
| "startswith (c # cs) (p # ps) = (c = p \<and> startswith cs ps)"

text \<open>\<open>sub in s\<close> for two strings: \<open>sub\<close> occurs somewhere in \<open>s\<close>.\<close>

fun str_contains :: "string \<Rightarrow> string \<Rightarrow> bool" where
  "str_contains sub [] = (sub = [])"
| "str_contains sub (c # cs) = (startswith (c # cs) sub \<or> str_contains sub cs)"

text \<open>
  \<open>s.rfind(sub)\<close>: the highest index at which \<open>sub\<close> occurs in \<open>s\<close>, or \<open>-1\<close>.
  The search tries the start positions from the last possible one down to 0.
\<close>

fun rfind_from :: "string \<Rightarrow> string \<Rightarrow> nat \<Rightarrow> int" where
  "rfind_from s sub 0 = (if startswith s sub then 0 else - 1)"
| "rfind_from s sub (Suc i) =
     (if startswith (drop (Suc i) s) sub then int (Suc i) else rfind_from s sub i)"

definition rfind :: "string \<Rightarrow> string \<Rightarrow> int" where
  "rfind s sub =
     (if length sub \<le> length s then rfind_from s sub (length s - length sub) else - 1)"

section \<open>Truncation of the response text\<close>

definition response_end :: string where
  "response_end = ''</response>''"

text \<open>
  \<open>clean_xml_response\<close> (the same in both files): cut the text after the last
  \<open></response>\<close>; a text without the tag is returned as it is. The slice
  \<open>xml_content[:k + 11]\<close> has a non-negative bound, so it is a \<open>take\<close>.
\<close>

definition clean_xml_response :: "string \<Rightarrow> string" where
  "clean_xml_response xml_content =
     (let last_response_end = rfind xml_content response_end
      in if last_response_end \<noteq> - 1
         then take (nat (last_response_end + int (length response_end))) xml_content
         else xml_content)"

text \<open>Where \<open>sub\<close> sits in \<open>s\<close>: the next \<open>length sub\<close> characters from index \<open>i\<close>.\<close>

definition occurs_at :: "string \<Rightarrow> string \<Rightarrow> nat \<Rightarrow> bool" where
  "occurs_at s sub i = (take (length sub) (drop i s) = sub)"

section \<open>Conversion to integers\<close>

text \<open>
  \<open>int(s)\<close> for a string: white space around the number is dropped, one sign is allowed,
  and the digits may be grouped by single underscores. Anything else is a
  \<open>ValueError\<close>. Characters are the ones of \<open>char\<close>; digits and spaces of other
  scripts, and the interpreter's optional limit on the number of digits, are outside
  this model.
\<close>

definition is_space :: "char \<Rightarrow> bool" where
  "is_space c =
     (c \<in> set [CHR '' '', CHR 0x09, CHR 0x0A, CHR 0x0B, CHR 0x0C, CHR 0x0D,
                CHR 0x1C, CHR 0x1D, CHR 0x1E, CHR 0x1F])"

definition strip :: "string \<Rightarrow> string" where
  "strip s = rev (dropWhile is_space (rev (dropWhile is_space s)))"

definition digit_val :: "char \<Rightarrow> nat option" where
  "digit_val c =
     (let n = (of_char c :: nat)
      in if of_char CHR ''0'' \<le> n \<and> n \<le> of_char CHR ''9'' then Some (n - of_char CHR ''0'')
         else None)"

fun parse_digits :: "nat \<Rightarrow> bool \<Rightarrow> string \<Rightarrow> nat option" where
  "parse_digits acc after_digit [] = (if after_digit then Some acc else None)"
| "parse_digits acc after_digit (c # cs) =
     (if c = CHR ''_'' then
        (if after_digit \<and> cs \<noteq> [] then parse_digits acc False cs else None)
      else
        (case digit_val c of
           None \<Rightarrow> None
         | Some d \<Rightarrow> parse_digits (10 * acc + d) True cs))"

definition py_int_str :: "string \<Rightarrow> int option" where
  "py_int_str s =
     (case strip s of
        [] \<Rightarrow> None
      | c # cs \<Rightarrow>
          if c = CHR ''-'' then map_option (\<lambda>n. - int n) (parse_digits 0 False cs)
          else if c = CHR ''+'' then map_option int (parse_digits 0 False cs)
          else map_option int (parse_digits 0 False (c # cs)))"

text \<open>\<open>int(x)\<close> for any object of the model.\<close>

fun py_int :: "pyval \<Rightarrow> error + int" where
  "py_int (PInt n) = Inr n"
| "py_int (PStr s) = (case py_int_str s of None \<Rightarrow> Inl ValueError | Some n \<Rightarrow> Inr n)"
| "py_int PNone = Inl TypeError"
| "py_int (PDict m) = Inl TypeError"
| "py_int (PList xs) = Inl TypeError"

section \<open>Operations on objects\<close>

text \<open>Sequencing of two steps of which the first may raise.\<close>

definition seq :: "error + 'a \<Rightarrow> ('a \<Rightarrow> error + 'b) \<Rightarrow> error + 'b" where
  "seq r f = (case r of Inl e \<Rightarrow> Inl e | Inr v \<Rightarrow> f v)"

text \<open>\<open>isinstance(x, dict)\<close>.\<close>

fun is_dict :: "pyval \<Rightarrow> bool" where
  "is_dict (PDict m) = True"
| "is_dict v = False"

text \<open>
  \<open>key in x\<close> with a string key: key membership for a mapping, substring test for a
  string, element equality for a sequence, \<open>TypeError\<close> for none and integers.
\<close>

fun py_contains :: "string \<Rightarrow> pyval \<Rightarrow> error + bool" where
  "py_contains k (PDict m) = Inr (k \<in> set (map fst m))"
| "py_contains k (PStr s) = Inr (str_contains k s)"
| "py_contains k (PList xs) = Inr (PStr k \<in> set xs)"
| "py_contains k PNone = Inl TypeError"
| "py_contains k (PInt n) = Inl TypeError"

text \<open>\<open>x[key]\<close> with a string key: only a mapping can be indexed by a string.\<close>

fun py_getitem :: "pyval \<Rightarrow> string \<Rightarrow> error + pyval" where
  "py_getitem (PDict m) k = (case map_of m k of None \<Rightarrow> Inl KeyError | Some v \<Rightarrow> Inr v)"
| "py_getitem v k = Inl TypeError"

text \<open>\<open>x.items()\<close> and \<open>x.get(key, default)\<close>: only a mapping has these methods.\<close>

fun py_items :: "pyval \<Rightarrow> error + (string \<times> pyval) list" where
  "py_items (PDict m) = Inr m"
| "py_items v = Inl AttributeError"

fun py_get :: "pyval \<Rightarrow> string \<Rightarrow> pyval \<Rightarrow> error + pyval" where
  "py_get (PDict m) k d = Inr (case map_of m k of None \<Rightarrow> d | Some v \<Rightarrow> v)"
| "py_get v k d = Inl AttributeError"

section \<open>The XML converter\<close>

text \<open>
  An element as the XML library hands it over: its tag, its text (\<open>None\<close> when the
  element has none) and its child elements in document order. The converter reads
  nothing else of an element.
\<close>

datatype element = Element (tag: string) (elem_text: "string option") (children: "element list")

definition leaf_value :: "string option \<Rightarrow> pyval" where
  "leaf_value t = (case t of None \<Rightarrow> PNone | Some s \<Rightarrow> PStr s)"

text \<open>
  One round of the loop of \<open>xml_to_dict\<close>, after the child has been converted: a tag
  seen before turns its entry into a list (unless it is one already) and appends; a new
  tag is inserted.
\<close>

definition add_child :: "string \<Rightarrow> pyval \<Rightarrow> (string \<times> pyval) list \<Rightarrow> (string \<times> pyval) list" where
  "add_child child_tag child_data result =
     (case map_of result child_tag of
        Some old \<Rightarrow>
          dict_set child_tag
            (PList ((case old of PList xs \<Rightarrow> xs | _ \<Rightarrow> [old]) @ [child_data])) result
      | None \<Rightarrow> dict_set child_tag child_data result)"

fun xml_to_dict :: "element \<Rightarrow> pyval" where
  "xml_to_dict (Element t txt cs) =
     (if length cs > 0
      then PDict (fold (\<lambda>child result. add_child (tag child) (xml_to_dict child) result) cs [])
      else leaf_value txt)"

section \<open>The campaign extractor of the package (\<open>__init__.py\<close>)\<close>

text \<open>The loop over \<open>data.items()\<close>; \<open>campaigns\<close> is the list built so far.\<close>

fun collect_rows :: "(string \<times> pyval) list \<Rightarrow> pyval list \<Rightarrow> pyval list" where
  "collect_rows [] campaigns = campaigns"
| "collect_rows ((key, v) # rest) campaigns =
     (if startswith key ''row'' \<and> is_dict v
      then collect_rows rest (campaigns @ [v])
      else collect_rows rest campaigns)"

definition parse_campaigns_data :: "pyval \<Rightarrow> error + pyval list" where
  "parse_campaigns_data xml_data =
     seq (py_contains ''result'' xml_data) (\<lambda>has_result.
       if \<not> has_result then Inr []
       else seq (py_getitem xml_data ''result'') (\<lambda>res.
         seq (py_contains ''data'' res) (\<lambda>has_data.
           if \<not> has_data then Inr []
           else seq (py_getitem res ''data'') (\<lambda>data.
             seq (py_items data) (\<lambda>items. Inr (collect_rows items []))))))"

section \<open>The field coercer and the extractor of the script (\<open>__main__.py\<close>)\<close>

definition campaign_fields :: "string list" where
  "campaign_fields =
     [''maxImpressions'', ''maxClicks'', ''maxImpressionsPerDay'', ''maxClicksPerDay'',
      ''maxImpressionsPerHour'', ''maxClicksPerHour'', ''impressionsHour'',
      ''clicksHour'', ''impressionsToday'', ''clicksToday'', ''impressionsAll'',
      ''clicksAll'', ''priority'', ''status'',
      ''level'', ''cpm'', ''cpc'', ''kind_id'', ''sectorID'',
      ''rotationMethodID'', ''trafficPercents'', ''logicType'']"

text \<open>The right-hand side \<open>int(v) if v else 0\<close>.\<close>

definition coerce_value :: "pyval \<Rightarrow> error + int" where
  "coerce_value v = (if truthy v then py_int v else Inr 0)"

text \<open>
  One assignment \<open>value[f] = int(value[f]) if value[f] else 0\<close>. The mapping is passed
  in and returned updated; reading a key that is not there raises \<open>KeyError\<close>.
\<close>

definition coerce_field :: "string \<Rightarrow> (string \<times> pyval) list \<Rightarrow> error + (string \<times> pyval) list" where
  "coerce_field f m =
     (case map_of m f of
        None \<Rightarrow> Inl KeyError
      | Some v \<Rightarrow> seq (coerce_value v) (\<lambda>n. Inr (dict_set f (PInt n) m)))"

fun coerce_fields :: "string list \<Rightarrow> (string \<times> pyval) list \<Rightarrow> error + (string \<times> pyval) list" where
  "coerce_fields [] m = Inr m"
| "coerce_fields (f # fs) m = seq (coerce_field f m) (coerce_fields fs)"

definition parse_campaign_value :: "(string \<times> pyval) list \<Rightarrow> error + (string \<times> pyval) list" where
  "parse_campaign_value m = coerce_fields campaign_fields m"

text \<open>
  The loop of the script's extractor: each selected row is coerced, then appended. Here
  the coerced mapping is the value that is appended; that it is the very object held by
  the input is the subject of the store model further down.
\<close>

fun collect_rows_script :: "(string \<times> pyval) list \<Rightarrow> pyval list \<Rightarrow> error + pyval list" where
  "collect_rows_script [] campaigns = Inr campaigns"
| "collect_rows_script ((key, v) # rest) campaigns =
     (case v of
        PDict m \<Rightarrow>
          if startswith key ''row''
          then seq (parse_campaign_value m) (\<lambda>m'. collect_rows_script rest (campaigns @ [PDict m']))
          else collect_rows_script rest campaigns
      | _ \<Rightarrow> collect_rows_script rest campaigns)"

definition parse_campaigns_data_script :: "pyval \<Rightarrow> error + pyval list" where
  "parse_campaigns_data_script xml_data =
     seq (py_contains ''result'' xml_data) (\<lambda>has_result.
       if \<not> has_result then Inr []
       else seq (py_getitem xml_data ''result'') (\<lambda>res.
         seq (py_contains ''data'' res) (\<lambda>has_data.
           if \<not> has_data then Inr []
           else seq (py_getitem res ''data'') (\<lambda>data.
             seq (py_items data) (\<lambda>items. collect_rows_script items [])))))"

section \<open>The reporter (\<open>print_campaign_stats\<close>)\<close>

text \<open>
  The reporter prints; the model returns what it prints as a record. The label table of
  the status codes is presentation only and is left out. The click-through rate is kept
  as an exact fraction: the source divides in binary floating point and prints three
  decimals, so the printed figure is this value up to rounding.
\<close>

record report =
  total_campaigns :: nat
  status_counts :: "(pyval \<times> nat) list"
  total_impressions :: int
  total_clicks :: int
  overall_ctr :: "rat option"

text \<open>A mapping or a sequence cannot be a key of a dict.\<close>

fun hashable :: "pyval \<Rightarrow> bool" where
  "hashable (PDict m) = False"
| "hashable (PList xs) = False"
| "hashable v = True"

text \<open>\<open>status_counts[status] = status_counts.get(status, 0) + 1\<close>.\<close>

fun bump :: "pyval \<Rightarrow> (pyval \<times> nat) list \<Rightarrow> (pyval \<times> nat) list" where
  "bump k [] = [(k, 1)]"
| "bump k (p # ps) = (if fst p = k then (k, snd p + 1) # ps else p # bump k ps)"

fun count_statuses :: "pyval list \<Rightarrow> (pyval \<times> nat) list \<Rightarrow> error + (pyval \<times> nat) list" where
  "count_statuses [] counts = Inr counts"
| "count_statuses (campaign # rest) counts =
     seq (py_get campaign ''status'' (PStr ''unknown'')) (\<lambda>status.
       if hashable status then count_statuses rest (bump status counts) else Inl TypeError)"

text \<open>\<open>sum(int(c.get(field, 0) or 0) for c in campaigns)\<close>, with the running total.\<close>

fun sum_field :: "string \<Rightarrow> pyval list \<Rightarrow> int \<Rightarrow> error + int" where
  "sum_field field [] subtotal = Inr subtotal"
| "sum_field field (c # rest) subtotal =
     seq (py_get c field (PInt 0)) (\<lambda>v.
       seq (py_int (if truthy v then v else PInt 0)) (\<lambda>n.
         sum_field field rest (subtotal + n)))"

text \<open>The result is \<open>None\<close> when the reporter returns at once on an empty list.\<close>

definition print_campaign_stats :: "pyval list \<Rightarrow> error + report option" where
  "print_campaign_stats campaigns =
     (if campaigns = [] then Inr None
      else
        seq (count_statuses campaigns []) (\<lambda>counts.
          seq (sum_field ''impressionsAll'' campaigns 0) (\<lambda>impressions.
            seq (sum_field ''clicksAll'' campaigns 0) (\<lambda>clicks.
              Inr (Some \<lparr>total_campaigns = length campaigns,
                         status_counts = counts,
                         total_impressions = impressions,
                         total_clicks = clicks,
                         overall_ctr =
                           (if impressions > 0
                            then Some (of_int clicks / of_int impressions * 100)
                            else None)\<rparr>)))))"

section \<open>The fetch step and the two entry points\<close>

text \<open>
  What a run meets outside the program is a parameter: the credential variable, the
  clock, the reply to the one HTTP request (\<open>RequestFailed\<close> stands for a network
  failure or a status that \<open>raise_for_status\<close> rejects), the codec library and the XML
  parser (\<open>None\<close> is a \<open>ParseError\<close>). A run leaves a list of events: the request and
  the written file. Console output is not an event; writing the file is assumed to
  succeed.
\<close>

datatype http_result = RequestFailed | Response (content_type: "string option") (content: string)

record world =
  auth_token :: "string option"
  start_of_month :: string
  fetch_date :: string
  http_reply :: http_result
  decode :: "string \<Rightarrow> string \<Rightarrow> error + string"
  fromstring :: "string \<Rightarrow> element option"

datatype event = HttpGet string | WriteFile string pyval

definition LIMIT :: int where
  "LIMIT = 100"

text \<open>\<open>s.split(sep)\<close> for a non-empty separator, as at both call sites.\<close>

function py_split_from :: "string \<Rightarrow> string \<Rightarrow> string \<Rightarrow> string list" where
  "py_split_from sep cur [] = [cur]"
| "py_split_from sep cur (c # cs) =
     (if sep \<noteq> [] \<and> startswith (c # cs) sep
      then cur # py_split_from sep [] (drop (length sep) (c # cs))
      else py_split_from sep (cur @ [c]) cs)"
  by pat_completeness auto
termination
  by (relation "measure (\<lambda>(sep, cur, s). length s)") auto

definition py_split :: "string \<Rightarrow> string \<Rightarrow> string list" where
  "py_split s sep = py_split_from sep [] s"

text \<open>
  The encoding: \<open>windows-1251\<close> unless the content type names a charset, then
  \<open>content_type.split('charset=')[1].split(';')[0].strip()\<close>.
\<close>

definition response_encoding :: "string \<Rightarrow> error + string" where
  "response_encoding ct =
     (if str_contains ''charset='' ct then
        (case py_split ct ''charset='' of
           _ # after # _ \<Rightarrow>
             (case py_split after '';'' of
                first # _ \<Rightarrow> Inr (strip first)
              | [] \<Rightarrow> Inl IndexError)
         | _ \<Rightarrow> Inl IndexError)
      else Inr ''windows-1251'')"

text \<open>The body of the \<open>try\<close> block of \<open>get_campaigns\<close>, the same in both files.\<close>

definition fetch_body :: "world \<Rightarrow> error + pyval" where
  "fetch_body w =
     (case http_reply w of
        RequestFailed \<Rightarrow> Inl RequestException
      | Response ct body \<Rightarrow>
          seq (response_encoding (case ct of None \<Rightarrow> [] | Some c \<Rightarrow> c)) (\<lambda>encoding.
            seq (decode w encoding body) (\<lambda>xml_content.
              case fromstring w (clean_xml_response xml_content) of
                None \<Rightarrow> Inl ParseError
              | Some root_element \<Rightarrow> Inr (xml_to_dict root_element))))"

text \<open>\<open>except ...: return None\<close> for the listed exceptions; any other one goes on.\<close>

definition except_none :: "error list \<Rightarrow> error + pyval \<Rightarrow> error + pyval" where
  "except_none handled r =
     (case r of Inl e \<Rightarrow> if e \<in> set handled then Inr PNone else Inl e | Inr v \<Rightarrow> Inr v)"

text \<open>\<open>not auth_token\<close>: the variable is unset or empty.\<close>

definition token_missing :: "world \<Rightarrow> bool" where
  "token_missing w = (case auth_token w of None \<Rightarrow> True | Some t \<Rightarrow> t = [])"

text \<open>
  \<open>get_campaigns\<close> of the package: the events of the call and its result, \<open>PNone\<close>
  being \<open>return None\<close>.
\<close>

definition get_campaigns :: "world \<Rightarrow> event list \<times> (error + pyval)" where
  "get_campaigns w =
     (if token_missing w then ([], Inl ValueError)
      else ([HttpGet (''OAuth '' @ the (auth_token w))],
            except_none [RequestException, ParseError, UnicodeDecodeError] (fetch_body w)))"

text \<open>\<open>get_campaigns\<close> of the script: it has no handler for a decoding error.\<close>

definition get_campaigns_script :: "world \<Rightarrow> event list \<times> (error + pyval)" where
  "get_campaigns_script w =
     (if token_missing w then ([], Inl ValueError)
      else ([HttpGet (''OAuth '' @ the (auth_token w))],
            except_none [RequestException, ParseError] (fetch_body w)))"

text \<open>
  \<open>main\<close> of the package. Its \<open>except Exception\<close> catches whatever is raised inside,
  so the run always ends normally and only the events tell what happened.
\<close>

definition output_document :: "world \<Rightarrow> pyval list \<Rightarrow> pyval" where
  "output_document w campaigns =
     PDict [(''metadata'',
               PDict [(''total_campaigns'', PInt (int (length campaigns))),
                      (''fetch_date'', PStr (fetch_date w)),
                      (''date_from'', PStr (start_of_month w)),
                      (''limit'', PInt LIMIT)]),
            (''campaigns'', PList campaigns)]"

definition main :: "world \<Rightarrow> event list" where
  "main w =
     (case get_campaigns w of
        (events, Inl e) \<Rightarrow> events
      | (events, Inr data) \<Rightarrow>
          if truthy data then
            (case parse_campaigns_data data of
               Inl e \<Rightarrow> events
             | Inr campaigns \<Rightarrow>
                 if campaigns \<noteq> [] then
                   (case print_campaign_stats campaigns of
                      Inl e \<Rightarrow> events
                    | Inr rep \<Rightarrow>
                        events @ [WriteFile ''adfox_campaigns.json'' (output_document w campaigns)])
                 else events)
          else events)"

text \<open>
  The script's top level. Nothing is caught here: an exception ends the run, and the
  second component is that exception.
\<close>

definition main_script :: "world \<Rightarrow> event list \<times> error option" where
  "main_script w =
     (case get_campaigns_script w of
        (events, Inl e) \<Rightarrow> (events, Some e)
      | (events, Inr data) \<Rightarrow>
          if truthy data then
            (case parse_campaigns_data_script data of
               Inl e \<Rightarrow> (events, Some e)
             | Inr campaigns \<Rightarrow>
                 (case count_statuses campaigns [] of
                    Inl e \<Rightarrow> (events, Some e)
                  | Inr statuses \<Rightarrow>
                      (events @ [WriteFile ''campaigns.json'' (PList campaigns)], None)))
          else (events, None))"

text \<open>Whether a run wrote a file, and whether it sent a request.\<close>

fun is_write :: "event \<Rightarrow> bool" where
  "is_write (WriteFile name doc) = True"
| "is_write (HttpGet auth) = False"

fun is_request :: "event \<Rightarrow> bool" where
  "is_request (HttpGet auth) = True"
| "is_request (WriteFile name doc) = False"

section \<open>Auxiliary notions for the converter's loop\<close>

text \<open>\<open>isinstance(x, list)\<close>.\<close>

fun is_list :: "pyval \<Rightarrow> bool" where
  "is_list (PList xs) = True"
| "is_list v = False"

text \<open>
  The converted children as (tag, value) pairs, the loop run over such pairs, the values
  converted from the children of one tag, and the entry a tag holds for them: nothing for
  no child, the value itself for a single child, the list of the values otherwise.
\<close>

definition values_of :: "string \<Rightarrow> (string \<times> pyval) list \<Rightarrow> pyval list" where
  "values_of k kvs = map snd (filter (\<lambda>kv. fst kv = k) kvs)"

definition entry_of :: "pyval list \<Rightarrow> pyval option" where
  "entry_of vs = (case vs of [] \<Rightarrow> None | [v] \<Rightarrow> Some v | _ \<Rightarrow> Some (PList vs))"

definition build :: "(string \<times> pyval) list \<Rightarrow> (string \<times> pyval) list \<Rightarrow> (string \<times> pyval) list" where
  "build kvs acc = fold (\<lambda>kv result. add_child (fst kv) (snd kv) result) kvs acc"

definition converted :: "element list \<Rightarrow> (string \<times> pyval) list" where
  "converted cs = map (\<lambda>c. (tag c, xml_to_dict c)) cs"

section \<open>Auxiliary notions for the coercer\<close>



section \<open>Auxiliary notions for the extractor\<close>

text \<open>The entries the extractor selects: a key that starts with \<open>row\<close> and a mapping as value.\<close>

definition is_row :: "string \<times> pyval \<Rightarrow> bool" where
  "is_row item = (startswith (fst item) ''row'' \<and> is_dict (snd item))"

section \<open>Auxiliary notions for the reporter\<close>





section \<open>The script's extraction on a store\<close>

text \<open>
  The functions above pass mappings as values, which hides which object is which. For
  the question whether the extractor returns the objects held by its input, and changes
  them in place, the same two functions of \<open>__main__.py\<close> are modelled again over an
  explicit store: a mapping or a sequence is an object at an address, a variable or an
  entry holds a reference to it, and an assignment \<open>value[f] = n\<close> updates the object at
  the address. Two references are the same object exactly when the addresses are equal.
\<close>

datatype hval = HNone | HStr string | HInt int | HRef nat

datatype hobj = HDict "(string \<times> hval) list" | HList "hval list"

type_synonym heap = "nat \<Rightarrow> hobj option"

text \<open>
  Truth value, \<open>int(x)\<close>, \<open>key in x\<close>, \<open>x[key]\<close>, \<open>x.items()\<close> and
  \<open>isinstance(x, dict)\<close> as before, reading objects through the store. The stores of a
  run have no dangling reference; one would count as falsy and as no mapping.
\<close>

fun truthy_st :: "heap \<Rightarrow> hval \<Rightarrow> bool" where
  "truthy_st h HNone = False"
| "truthy_st h (HStr s) = (s \<noteq> [])"
| "truthy_st h (HInt n) = (n \<noteq> 0)"
| "truthy_st h (HRef a) =
     (case h a of Some (HDict m) \<Rightarrow> m \<noteq> [] | Some (HList xs) \<Rightarrow> xs \<noteq> [] | None \<Rightarrow> False)"

fun py_int_st :: "hval \<Rightarrow> error + int" where
  "py_int_st (HInt n) = Inr n"
| "py_int_st (HStr s) = (case py_int_str s of None \<Rightarrow> Inl ValueError | Some n \<Rightarrow> Inr n)"
| "py_int_st HNone = Inl TypeError"
| "py_int_st (HRef a) = Inl TypeError"





text \<open>
  \<open>parse_campaign_value(value)\<close>, with \<open>value\<close> a reference to the object at \<open>a\<close>:
  each assignment replaces the object at \<open>a\<close> by the updated mapping.
\<close>

definition coerce_value_st :: "heap \<Rightarrow> hval \<Rightarrow> error + int" where
  "coerce_value_st h v = (if truthy_st h v then py_int_st v else Inr 0)"

definition coerce_field_st :: "string \<Rightarrow> nat \<Rightarrow> heap \<Rightarrow> error + heap" where
  "coerce_field_st f a h =
     (case h a of
        Some (HDict m) \<Rightarrow>
          (case map_of m f of
             None \<Rightarrow> Inl KeyError
           | Some v \<Rightarrow>
               seq (coerce_value_st h v) (\<lambda>n. Inr (h(a \<mapsto> HDict (dict_set f (HInt n) m)))))
      | _ \<Rightarrow> Inl TypeError)"

fun coerce_fields_st :: "string list \<Rightarrow> nat \<Rightarrow> heap \<Rightarrow> error + heap" where
  "coerce_fields_st [] a h = Inr h"
| "coerce_fields_st (f # fs) a h = seq (coerce_field_st f a h) (coerce_fields_st fs a)"

definition parse_campaign_value_st :: "nat \<Rightarrow> heap \<Rightarrow> error + heap" where
  "parse_campaign_value_st a h = coerce_fields_st campaign_fields a h"







text \<open>
  A stored value and a value of the first model that are the same none, text or
  integer, and two rows with the same keys in the same order and such values.
\<close>

fun agrees :: "hval \<Rightarrow> pyval \<Rightarrow> bool" where
  "agrees HNone PNone = True"
| "agrees (HStr s) (PStr t) = (s = t)"
| "agrees (HInt n) (PInt k) = (n = k)"
| "agrees hv v = False"

definition rows_agree :: "(string \<times> hval) list \<Rightarrow> (string \<times> pyval) list \<Rightarrow> bool" where
  "rows_agree hm m = list_all2 (\<lambda>p q. fst p = fst q \<and> agrees (snd p) (snd q)) hm m"

section \<open>Truncation: properties\<close>

lemma startswith_iff: "startswith s p \<longleftrightarrow> take (length p) s = p"
  by (induction s p rule: startswith.induct) auto

lemma occurs_at_len:
  assumes "occurs_at s sub i" and "sub \<noteq> []"
  shows "i + length sub \<le> length s"
proof -
  have "length (take (length sub) (drop i s)) = length sub"
    using assms(1) by (simp add: occurs_at_def)
  then have "min (length sub) (length s - i) = length sub" by simp
  moreover have "0 < length sub" using assms(2) by simp
  ultimately show ?thesis by arith
qed

lemma rfind_from_none:
  "rfind_from s sub i = - 1 \<longleftrightarrow> (\<forall>j \<le> i. \<not> occurs_at s sub j)"
  by (induction i) (auto simp: startswith_iff occurs_at_def le_Suc_eq)

lemma rfind_from_some:
  "rfind_from s sub i = int k \<longleftrightarrow> k \<le> i \<and> occurs_at s sub k \<and> (\<forall>j. k < j \<and> j \<le> i \<longrightarrow> \<not> occurs_at s sub j)"
proof (induction i)
  case 0
  then show ?case by (auto simp: startswith_iff occurs_at_def)
next
  case (Suc i)
  show ?case
  proof (cases "startswith (drop (Suc i) s) sub")
    case True
    then have occ: "occurs_at s sub (Suc i)" by (simp add: startswith_iff occurs_at_def)
    show ?thesis
    proof
      assume "rfind_from s sub (Suc i) = int k"
      with True have "k = Suc i" by simp
      with occ show "k \<le> Suc i \<and> occurs_at s sub k \<and> (\<forall>j. k < j \<and> j \<le> Suc i \<longrightarrow> \<not> occurs_at s sub j)" by auto
    next
      assume a: "k \<le> Suc i \<and> occurs_at s sub k \<and> (\<forall>j. k < j \<and> j \<le> Suc i \<longrightarrow> \<not> occurs_at s sub j)"
      then have "k \<le> Suc i" and "\<not> (k < Suc i)" using occ by auto
      then have "k = Suc i" by simp
      with True show "rfind_from s sub (Suc i) = int k" by simp
    qed
  next
    case False
    then have nocc: "\<not> occurs_at s sub (Suc i)" by (simp add: startswith_iff occurs_at_def)
    have "rfind_from s sub (Suc i) = rfind_from s sub i" using False by simp
    with Suc nocc show ?thesis
      by (auto simp: le_Suc_eq)
  qed
qed

lemma rfind_from_range: "rfind_from s sub i = - 1 \<or> (\<exists>k. rfind_from s sub i = int k)"
proof (induction i)
  case 0
  then show ?case by simp
next
  case (Suc i)
  have "1 + int i = int (Suc i)" by simp
  with Suc show ?case by (metis rfind_from.simps(2))
qed

lemma rfind_none: "sub \<noteq> [] \<Longrightarrow> rfind s sub = - 1 \<longleftrightarrow> (\<forall>j. \<not> occurs_at s sub j)"
proof -
  assume ne: "sub \<noteq> []"
  show ?thesis
  proof (cases "length sub \<le> length s")
    case True
    have "(\<forall>j \<le> length s - length sub. \<not> occurs_at s sub j) \<longleftrightarrow> (\<forall>j. \<not> occurs_at s sub j)"
    proof -
      have "j \<le> length s - length sub" if "occurs_at s sub j" for j
        using occurs_at_len [OF that ne] by simp
      then show ?thesis by blast
    qed
    with True show ?thesis by (simp add: rfind_def rfind_from_none)
  next
    case False
    have "\<not> occurs_at s sub j" for j
      using occurs_at_len [OF _ ne, of s j] False by auto
    then show ?thesis using False by (simp add: rfind_def)
  qed
qed

lemma rfind_last:
  assumes ne: "sub \<noteq> []" and occ: "occurs_at s sub k"
    and last: "\<And>j. occurs_at s sub j \<Longrightarrow> j \<le> k"
  shows "rfind s sub = int k"
proof -
  have len: "k + length sub \<le> length s" using occurs_at_len [OF occ ne] .
  then have "length sub \<le> length s" and "k \<le> length s - length sub" by auto
  moreover have "\<forall>j. k < j \<and> j \<le> length s - length sub \<longrightarrow> \<not> occurs_at s sub j"
    using last by fastforce
  ultimately show ?thesis using occ by (simp add: rfind_def rfind_from_some)
qed

lemma rfind_some:
  assumes ne: "sub \<noteq> []" and r: "rfind s sub = int k"
  shows "occurs_at s sub k \<and> (\<forall>j. occurs_at s sub j \<longrightarrow> j \<le> k)"
proof -
  have le: "length sub \<le> length s" using r by (auto simp: rfind_def split: if_splits)
  with r have rf: "rfind_from s sub (length s - length sub) = int k" by (simp add: rfind_def)
  then have occ: "occurs_at s sub k"
    and lst: "\<forall>j. k < j \<and> j \<le> length s - length sub \<longrightarrow> \<not> occurs_at s sub j"
    by (simp_all add: rfind_from_some)
  have "j \<le> k" if "occurs_at s sub j" for j
  proof (rule ccontr)
    assume "\<not> j \<le> k"
    moreover have "j \<le> length s - length sub" using occurs_at_len [OF that ne] by simp
    ultimately show False using lst that by auto
  qed
  with occ show ?thesis by blast
qed

lemma rfind_cases: "rfind s sub = - 1 \<or> (\<exists>k. rfind s sub = int k)"
  using rfind_from_range by (auto simp: rfind_def)

lemma str_contains_occurs: "str_contains sub s \<longleftrightarrow> (\<exists>i. occurs_at s sub i)"
proof (induction s)
  case Nil
  then show ?case by (auto simp: occurs_at_def)
next
  case (Cons c cs)
  have "(\<exists>i. occurs_at (c # cs) sub i) \<longleftrightarrow> occurs_at (c # cs) sub 0 \<or> (\<exists>i. occurs_at cs sub i)"
  proof
    assume "\<exists>i. occurs_at (c # cs) sub i"
    then obtain i where i: "occurs_at (c # cs) sub i" ..
    show "occurs_at (c # cs) sub 0 \<or> (\<exists>i. occurs_at cs sub i)"
    proof (cases i)
      case 0
      with i show ?thesis by simp
    next
      case (Suc j)
      with i have "occurs_at cs sub j" by (simp add: occurs_at_def)
      then show ?thesis by blast
    qed
  next
    assume "occurs_at (c # cs) sub 0 \<or> (\<exists>i. occurs_at cs sub i)"
    then show "\<exists>i. occurs_at (c # cs) sub i"
    proof
      assume "occurs_at (c # cs) sub 0" then show ?thesis ..
    next
      assume "\<exists>i. occurs_at cs sub i"
      then obtain i where "occurs_at cs sub i" ..
      then have "occurs_at (c # cs) sub (Suc i)" by (simp add: occurs_at_def)
      then show ?thesis ..
    qed
  qed
  with Cons show ?case by (simp add: startswith_iff occurs_at_def)
qed

lemma response_end_ne: "response_end \<noteq> []"
  by (simp add: response_end_def)

lemma clean_no_tag:
  assumes "\<not> str_contains response_end s"
  shows "clean_xml_response s = s"
proof -
  have "rfind s response_end = - 1"
    using assms by (simp add: rfind_none [OF response_end_ne] str_contains_occurs)
  then show ?thesis by (simp add: clean_xml_response_def)
qed

lemma clean_at_last:
  assumes "rfind s response_end = int k"
  shows "clean_xml_response s = take (k + length response_end) s"
  using assms by (simp add: clean_xml_response_def Let_def nat_add_distrib)

lemma clean_fixed:
  assumes occ: "occurs_at s response_end k" and len: "length s = k + length response_end"
  shows "clean_xml_response s = s"
proof -
  have "j \<le> k" if "occurs_at s response_end j" for j
    using occurs_at_len [OF that response_end_ne] len by simp
  then have "rfind s response_end = int k"
    using rfind_last [OF response_end_ne occ] by blast
  then show ?thesis using len by (simp add: clean_at_last)
qed

lemma clean_idem: "clean_xml_response (clean_xml_response s) = clean_xml_response s"
proof -
  consider "rfind s response_end = - 1" | k where "rfind s response_end = int k"
    using rfind_cases by blast
  then show ?thesis
  proof cases
    case 1
    then show ?thesis by (simp add: clean_xml_response_def)
  next
    case 2
    let ?n = "length response_end"
    let ?t = "take (k + ?n) s"
    have occ: "occurs_at s response_end k" using rfind_some [OF response_end_ne 2] by blast
    have ct: "clean_xml_response s = ?t" using 2 by (rule clean_at_last)
    have "k + ?n \<le> length s" using occurs_at_len [OF occ response_end_ne] .
    then have len: "length ?t = k + ?n" by simp
    have "drop k ?t = take ?n (drop k s)" by (simp add: drop_take)
    then have "occurs_at ?t response_end k" using occ by (simp add: occurs_at_def)
    then have "clean_xml_response ?t = ?t" using len by (rule clean_fixed)
    with ct show ?thesis by simp
  qed
qed

lemma clean_suffix: "clean_xml_response (p @ response_end) = p @ response_end"
proof (rule clean_fixed [of _ "length p"])
  show "occurs_at (p @ response_end) response_end (length p)" by (simp add: occurs_at_def)
  show "length (p @ response_end) = length p + length response_end" by simp
qed

text \<open>
  Claim C8. Truncation is idempotent: truncating the output of the truncation again
  changes nothing; in particular a text that ends exactly at \<open></response>\<close> is returned
  as it is; and a text in which \<open></response>\<close> never occurs is returned unmodified.
\<close>

theorem C8_truncation_idempotent:
  "clean_xml_response (clean_xml_response s) = clean_xml_response s \<and>
   clean_xml_response (p @ response_end) = p @ response_end \<and>
   (\<not> str_contains response_end u \<longrightarrow> clean_xml_response u = u)"
  using clean_idem clean_suffix clean_no_tag by blast

theorem C8_truncation_idempotent_witness:
  "clean_xml_response (clean_xml_response ''<response>ok</response>junk'') =
     clean_xml_response ''<response>ok</response>junk'' \<and>
   clean_xml_response ''<response>ok</response>junk'' = ''<response>ok</response>'' \<and>
   clean_xml_response (''<response>ok'' @ response_end) = ''<response>ok'' @ response_end \<and>
   \<not> str_contains response_end ''<a>no tag</a>'' \<and>
   clean_xml_response ''<a>no tag</a>'' = ''<a>no tag</a>''"
proof -
  have absent: "\<not> str_contains response_end ''<a>no tag</a>''"
    by (simp add: response_end_def)
  have cut: "clean_xml_response ''<response>ok</response>junk'' = ''<response>ok</response>''"
    by code_simp
  show ?thesis
    using C8_truncation_idempotent
      [of "''<response>ok</response>junk''" "''<response>ok''" "''<a>no tag</a>''"]
      absent cut
    by blast
qed

section \<open>The converter: properties\<close>

lemma map_of_dict_set: "map_of (dict_set k v m) = (map_of m)(k \<mapsto> v)"
  by (induction m) (auto simp: fun_eq_iff)

lemma keys_dict_set:
  "map fst (dict_set k v m) = (if k \<in> set (map fst m) then map fst m else map fst m @ [k])"
  by (induction m) auto

lemma dict_set_new: "k \<notin> set (map fst m) \<Longrightarrow> dict_set k v m = m @ [(k, v)]"
  by (induction m) auto

lemma xml_to_dict_children:
  "xml_to_dict (Element t tx cs) =
     (if cs = [] then leaf_value tx else PDict (build (converted cs) []))"
  by (simp add: build_def converted_def fold_map comp_def)

declare xml_to_dict.simps [simp del]

lemma xml_to_dict_not_list: "\<not> is_list (xml_to_dict e)"
  by (cases e) (simp add: xml_to_dict_children leaf_value_def split: option.split)

lemma build_snoc: "build (kvs @ [(k, v)]) acc = add_child k v (build kvs acc)"
  by (simp add: build_def)

lemma entry_of_snoc:
  "entry_of (vs @ [v]) = (case vs of [] \<Rightarrow> Some v | _ \<Rightarrow> Some (PList (vs @ [v])))"
  by (cases vs) (auto simp: entry_of_def split: list.split)

lemma build_lookup:
  assumes "\<forall>kv \<in> set kvs. \<not> is_list (snd kv)"
  shows "map_of (build kvs []) k = entry_of (values_of k kvs)"
  using assms
proof (induction kvs arbitrary: k rule: rev_induct)
  case Nil
  then show ?case by (simp add: build_def values_of_def entry_of_def)
next
  case (snoc kv kvs)
  obtain t v where kv: "kv = (t, v)" by (cases kv)
  let ?r = "build kvs []"
  have ih: "map_of ?r j = entry_of (values_of j kvs)" for j
    using snoc by simp
  have step: "build (kvs @ [kv]) [] = add_child t v ?r"
    by (simp add: kv build_snoc)
  show ?case
  proof (cases "k = t")
    case False
    then have "map_of (add_child t v ?r) k = map_of ?r k"
      by (simp add: add_child_def map_of_dict_set split: option.split)
    moreover have "values_of k (kvs @ [kv]) = values_of k kvs"
      using False by (simp add: values_of_def kv)
    ultimately show ?thesis using ih step by simp
  next
    case True
    have vals: "values_of k (kvs @ [kv]) = values_of t kvs @ [v]"
      using True by (simp add: values_of_def kv)
    have nolist: "\<forall>x \<in> set (values_of t kvs). \<not> is_list x"
      using snoc.prems by (auto simp: values_of_def)
    show ?thesis
    proof (cases "values_of t kvs")
      case Nil
      then have "map_of ?r t = None" using ih by (simp add: entry_of_def)
      then show ?thesis
        using True step vals Nil by (simp add: add_child_def map_of_dict_set entry_of_def)
    next
      case (Cons x xs)
      show ?thesis
      proof (cases xs)
        case Nil
        have "\<not> is_list x" using nolist Cons by simp
        moreover have "map_of ?r t = Some x" using ih [of t] Cons Nil by (simp add: entry_of_def)
        ultimately show ?thesis
          using True step vals Cons Nil
          by (cases x) (simp_all add: add_child_def map_of_dict_set entry_of_def)
      next
        case (Cons y ys)
        have "map_of ?r t = Some (PList (values_of t kvs))"
          using ih [of t] \<open>values_of t kvs = x # xs\<close> Cons by (simp add: entry_of_def)
        then show ?thesis
          using True step vals \<open>values_of t kvs = x # xs\<close> Cons
          by (simp add: add_child_def map_of_dict_set entry_of_def)
      qed
    qed
  qed
qed

lemma build_keys:
  "map fst (build kvs []) = rev (remdups (rev (map fst kvs)))"
proof (induction kvs rule: rev_induct)
  case Nil
  then show ?case by (simp add: build_def)
next
  case (snoc kv kvs)
  obtain t v where kv: "kv = (t, v)" by (cases kv)
  have "map fst (add_child t v r) = (if t \<in> set (map fst r) then map fst r else map fst r @ [t])" for r
    by (simp add: add_child_def keys_dict_set split: option.split)
  then have step: "map fst (build (kvs @ [kv]) []) =
      (if t \<in> set (map fst (build kvs [])) then map fst (build kvs [])
       else map fst (build kvs []) @ [t])"
    by (simp only: kv build_snoc)
  have "set (map fst (build kvs [])) = set (rev (remdups (rev (map fst kvs))))"
    by (simp only: snoc)
  then have keys: "set (map fst (build kvs [])) = set (map fst kvs)"
    by simp
  show ?case
    unfolding step keys by (simp add: snoc kv)
qed

lemma build_distinct:
  assumes "distinct (map fst kvs)" and "set (map fst kvs) \<inter> set (map fst acc) = {}"
  shows "build kvs acc = acc @ kvs"
  using assms
proof (induction kvs arbitrary: acc)
  case Nil
  then show ?case by (simp add: build_def)
next
  case (Cons kv kvs)
  obtain t v where kv: "kv = (t, v)" by (cases kv)
  have absent: "t \<notin> set (map fst acc)" using Cons.prems kv by auto
  then have "map_of acc t = None" by (simp add: map_of_eq_None_iff)
  then have first: "add_child t v acc = acc @ [(t, v)]"
    using absent by (simp add: add_child_def dict_set_new)
  have "build (kv # kvs) acc = build kvs (acc @ [(t, v)])"
    using first by (simp add: build_def kv)
  also have "\<dots> = (acc @ [(t, v)]) @ kvs"
    using Cons.prems kv by (intro Cons.IH) auto
  finally show ?case by (simp add: kv)
qed


lemma values_of_converted:
  "values_of k (converted cs) = map xml_to_dict (filter (\<lambda>c. tag c = k) cs)"
  by (induction cs) (simp_all add: values_of_def converted_def)

lemma converted_not_list: "\<forall>kv \<in> set (converted cs). \<not> is_list (snd kv)"
  by (auto simp: converted_def xml_to_dict_not_list)

lemma lookup_children:
  assumes "cs \<noteq> []"
  shows "py_getitem (xml_to_dict (Element t tx cs)) k =
     (case entry_of (map xml_to_dict (filter (\<lambda>c. tag c = k) cs)) of
        None \<Rightarrow> Inl KeyError
      | Some v \<Rightarrow> Inr v)"
  using assms
  by (simp only: xml_to_dict_children if_False py_getitem.simps
        build_lookup [OF converted_not_list] values_of_converted)

lemma keys_children:
  assumes "cs \<noteq> []"
  shows "\<exists>d. xml_to_dict (Element t tx cs) = PDict d \<and>
             map fst d = rev (remdups (rev (map tag cs)))"
proof -
  have "map fst (converted cs) = map tag cs" by (simp add: converted_def comp_def)
  then show ?thesis using assms by (simp add: xml_to_dict_children build_keys)
qed

lemma distinct_children:
  assumes "distinct (map tag cs)"
  shows "xml_to_dict (Element t tx cs) =
     (if cs = [] then leaf_value tx else PDict (map (\<lambda>c. (tag c, xml_to_dict c)) cs))"
proof -
  have "map fst (converted cs) = map tag cs" by (simp add: converted_def comp_def)
  then have "build (converted cs) [] = [] @ converted cs"
    using assms by (intro build_distinct) simp_all
  then show ?thesis by (simp add: xml_to_dict_children converted_def)
qed

lemma repeated_children:
  assumes two: "2 \<le> length (filter (\<lambda>c. tag c = k) cs)"
  shows "py_getitem (xml_to_dict (Element t tx cs)) k =
        Inr (PList (map xml_to_dict (filter (\<lambda>c. tag c = k) cs)))"
proof -
  have ne: "cs \<noteq> []" using two by auto
  obtain x y zs where "filter (\<lambda>c. tag c = k) cs = x # y # zs"
  proof (cases "filter (\<lambda>c. tag c = k) cs")
    case Nil
    with two show ?thesis by simp
  next
    case (Cons x xs)
    with two show ?thesis using that by (cases xs) simp_all
  qed
  then show ?thesis
    by (simp add: lookup_children [OF ne] entry_of_def)
qed

lemma single_child:
  assumes one: "filter (\<lambda>c. tag c = k) cs = [c]"
  shows "py_getitem (xml_to_dict (Element t tx cs)) k = Inr (xml_to_dict c)"
proof -
  have ne: "cs \<noteq> []" using one by auto
  show ?thesis
    using one by (simp add: lookup_children [OF ne] entry_of_def)
qed

text \<open>
  Claim C3. When at least two children of an element share a tag, the converter maps the
  tag to the sequence of their converted values, as many as there are such children and
  in document order. A tag with a single child holds that child's value, which is never
  a sequence, so a sequence arises only from the second occurrence on. When no tag is
  repeated, the mapping has exactly one entry per child, in document order (and an
  element without children yields its text).
\<close>

theorem C3_repeated_tags:
  "(2 \<le> length (filter (\<lambda>c. tag c = k) cs) \<longrightarrow>
      py_getitem (xml_to_dict (Element t tx cs)) k =
        Inr (PList (map xml_to_dict (filter (\<lambda>c. tag c = k) cs)))) \<and>
   (filter (\<lambda>c. tag c = k) cs = [c] \<longrightarrow>
      py_getitem (xml_to_dict (Element t tx cs)) k = Inr (xml_to_dict c) \<and>
      \<not> is_list (xml_to_dict c)) \<and>
   (distinct (map tag cs) \<longrightarrow>
      xml_to_dict (Element t tx cs) =
        (if cs = [] then leaf_value tx
         else PDict (map (\<lambda>c. (tag c, xml_to_dict c)) cs)))"
  using repeated_children [of k cs t tx] single_child [of k cs c t tx]
    xml_to_dict_not_list [of c] distinct_children [of cs t tx]
  by blast

theorem C3_repeated_tags_witness:
  "2 \<le> length (filter (\<lambda>c. tag c = ''a'')
        [Element ''a'' (Some ''1'') [], Element ''b'' None [], Element ''a'' (Some ''2'') []]) \<and>
   py_getitem (xml_to_dict (Element ''r'' None
        [Element ''a'' (Some ''1'') [], Element ''b'' None [], Element ''a'' (Some ''2'') []])) ''a'' =
     Inr (PList [PStr ''1'', PStr ''2'']) \<and>
   filter (\<lambda>c. tag c = ''b'')
        [Element ''a'' (Some ''1'') [], Element ''b'' None [], Element ''a'' (Some ''2'') []] =
     [Element ''b'' None []] \<and>
   py_getitem (xml_to_dict (Element ''r'' None
        [Element ''a'' (Some ''1'') [], Element ''b'' None [], Element ''a'' (Some ''2'') []])) ''b'' =
     Inr PNone \<and>
   distinct (map tag [Element ''a'' (Some ''1'') [], Element ''b'' None []]) \<and>
   xml_to_dict (Element ''r'' None [Element ''a'' (Some ''1'') [], Element ''b'' None []]) =
     PDict [(''a'', PStr ''1''), (''b'', PNone)]"
proof -
  let ?cs = "[Element ''a'' (Some ''1'') [], Element ''b'' None [], Element ''a'' (Some ''2'') []]"
  let ?ds = "[Element ''a'' (Some ''1'') [], Element ''b'' None []]"
  have two: "2 \<le> length (filter (\<lambda>c. tag c = ''a'') ?cs)" by simp
  have one: "filter (\<lambda>c. tag c = ''b'') ?cs = [Element ''b'' None []]" by simp
  have dist: "distinct (map tag ?ds)" by simp
  have leaves: "xml_to_dict (Element ''a'' (Some ''1'') []) = PStr ''1''"
    "xml_to_dict (Element ''a'' (Some ''2'') []) = PStr ''2''"
    "xml_to_dict (Element ''b'' None []) = PNone"
    by (simp_all add: xml_to_dict.simps leaf_value_def)
  have a: "py_getitem (xml_to_dict (Element ''r'' None ?cs)) ''a'' = Inr (PList [PStr ''1'', PStr ''2''])"
    using C3_repeated_tags [where k = "''a''" and cs = ?cs and t = "''r''" and tx = None] two leaves by simp
  have b: "py_getitem (xml_to_dict (Element ''r'' None ?cs)) ''b'' = Inr PNone"
    using C3_repeated_tags [where k = "''b''" and cs = ?cs and t = "''r''" and tx = None] one leaves by simp
  have c: "xml_to_dict (Element ''r'' None ?ds) = PDict [(''a'', PStr ''1''), (''b'', PNone)]"
    using C3_repeated_tags [where cs = ?ds and t = "''r''" and tx = None] dist leaves by simp
  show ?thesis using two one dist a b c by blast
qed








section \<open>The coercer: properties\<close>





















section \<open>The extractor: properties\<close>

lemma collect_rows_filter:
  "collect_rows items campaigns = campaigns @ map snd (filter is_row items)"
  by (induction items campaigns rule: collect_rows.induct) (simp_all add: is_row_def)

lemma key_present: "map_of m k = Some v \<Longrightarrow> k \<in> set (map fst m)"
  using map_of_eq_None_iff [of m k] by auto

lemma key_absent: "map_of m k = None \<Longrightarrow> k \<notin> set (map fst m)"
  using map_of_eq_None_iff [of m k] by auto

lemma extract_no_result:
  assumes "map_of doc ''result'' = None"
  shows "parse_campaigns_data (PDict doc) = Inr []"
  using key_absent [OF assms] by (simp add: parse_campaigns_data_def seq_def)

lemma extract_no_data:
  assumes "map_of doc ''result'' = Some (PDict res)" and "map_of res ''data'' = None"
  shows "parse_campaigns_data (PDict doc) = Inr []"
  using key_present [OF assms(1)] key_absent [OF assms(2)] assms(1)
  by (simp add: parse_campaigns_data_def seq_def)

lemma extract_rows:
  assumes "map_of doc ''result'' = Some (PDict res)" and "map_of res ''data'' = Some (PDict items)"
  shows "parse_campaigns_data (PDict doc) = Inr (map snd (filter is_row items))"
  using key_present [OF assms(1)] key_present [OF assms(2)] assms
  by (simp add: parse_campaigns_data_def seq_def collect_rows_filter)

lemma script_no_result:
  assumes "map_of doc ''result'' = None"
  shows "parse_campaigns_data_script (PDict doc) = Inr []"
  using key_absent [OF assms] by (simp add: parse_campaigns_data_script_def seq_def)

lemma script_no_data:
  assumes "map_of doc ''result'' = Some (PDict res)" and "map_of res ''data'' = None"
  shows "parse_campaigns_data_script (PDict doc) = Inr []"
  using key_present [OF assms(1)] key_absent [OF assms(2)] assms(1)
  by (simp add: parse_campaigns_data_script_def seq_def)

lemma script_rows_path:
  assumes "map_of doc ''result'' = Some (PDict res)" and "map_of res ''data'' = Some (PDict items)"
  shows "parse_campaigns_data_script (PDict doc) = collect_rows_script items []"
  using key_present [OF assms(1)] key_present [OF assms(2)] assms
  by (simp add: parse_campaigns_data_script_def seq_def)

text \<open>A row and what the script's extractor returns for it: the row after coercion.\<close>

lemma collect_rows_script_result:
  assumes "collect_rows_script items campaigns = Inr out"
  shows "\<exists>new. out = campaigns @ new \<and>
           list_all2 (\<lambda>item c. \<exists>m m'. snd item = PDict m \<and> parse_campaign_value m = Inr m' \<and>
                                 c = PDict m')
             (filter is_row items) new"
  using assms
proof (induction items arbitrary: campaigns)
  case Nil
  then show ?case by simp
next
  case (Cons item items)
  obtain k v where item: "item = (k, v)" by (cases item)
  show ?case
  proof (cases "is_row item")
    case False
    then have "collect_rows_script (item # items) campaigns = collect_rows_script items campaigns"
      using item by (cases v) (simp_all add: is_row_def)
    with Cons.prems have "collect_rows_script items campaigns = Inr out" by simp
    from Cons.IH [OF this] show ?thesis using False by simp
  next
    case True
    then obtain m where v: "v = PDict m" and row: "startswith k ''row''"
      using item by (cases v) (simp_all add: is_row_def)
    show ?thesis
    proof (cases "parse_campaign_value m")
      case (Inl e)
      then show ?thesis using Cons.prems item v row by (simp add: seq_def)
    next
      case (Inr m')
      then have "collect_rows_script items (campaigns @ [PDict m']) = Inr out"
        using Cons.prems item v row by (simp add: seq_def)
      from Cons.IH [OF this] obtain new where
        "out = (campaigns @ [PDict m']) @ new" and
        "list_all2 (\<lambda>item c. \<exists>m m'. snd item = PDict m \<and> parse_campaign_value m = Inr m' \<and>
                                 c = PDict m')
             (filter is_row items) new"
        by blast
      then show ?thesis using True Inr item v
        by (intro exI [of _ "PDict m' # new"]) simp
    qed
  qed
qed

text \<open>
  Claim C2, as amended. For every root mapping: when it has no \<open>result\<close> entry, or its
  \<open>result\<close> is a mapping without a \<open>data\<close> entry, the extractor returns the empty
  sequence; when \<open>result.data\<close> is a mapping, it returns exactly the values of those
  entries of it whose key starts with \<open>row\<close> and whose value is a mapping, in the order
  of the mapping, and ignores the other entries. (The script's extractor returns the
  same rows after coercing each.) A \<open>result\<close> or \<open>data\<close> that is not a mapping is not
  covered: it is not ignored in general.
\<close>

theorem C2_extractor:
  "(map_of doc ''result'' = None \<longrightarrow>
      parse_campaigns_data (PDict doc) = Inr [] \<and>
      parse_campaigns_data_script (PDict doc) = Inr []) \<and>
   (map_of doc ''result'' = Some (PDict res) \<and> map_of res ''data'' = None \<longrightarrow>
      parse_campaigns_data (PDict doc) = Inr [] \<and>
      parse_campaigns_data_script (PDict doc) = Inr []) \<and>
   (map_of doc ''result'' = Some (PDict res) \<and> map_of res ''data'' = Some (PDict items) \<longrightarrow>
      parse_campaigns_data (PDict doc) = Inr (map snd (filter is_row items)) \<and>
      (\<forall>out. parse_campaigns_data_script (PDict doc) = Inr out \<longrightarrow>
         list_all2 (\<lambda>item c. \<exists>m m'. snd item = PDict m \<and> parse_campaign_value m = Inr m' \<and>
                               c = PDict m')
           (filter is_row items) out))"
proof -
  have "list_all2 (\<lambda>item c. \<exists>m m'. snd item = PDict m \<and> parse_campaign_value m = Inr m' \<and>
                               c = PDict m')
           (filter is_row items) out"
    if "map_of doc ''result'' = Some (PDict res)" "map_of res ''data'' = Some (PDict items)"
      "parse_campaigns_data_script (PDict doc) = Inr out" for out
    using collect_rows_script_result [of items "[]" out] script_rows_path [OF that(1,2)] that(3)
    by auto
  then show ?thesis
    using extract_no_result [of doc] extract_no_data [of doc res] extract_rows [of doc res items]
      script_no_result [of doc] script_no_data [of doc res]
    by blast
qed

theorem C2_extractor_witness:
  "map_of [(''error'', PStr ''denied'')] ''result'' = None \<and>
   parse_campaigns_data (PDict [(''error'', PStr ''denied'')]) = Inr [] \<and>
   map_of [(''result'', PDict [(''count'', PStr ''0'')])] ''result'' =
     Some (PDict [(''count'', PStr ''0'')]) \<and>
   map_of [(''count'', PStr ''0'')] ''data'' = None \<and>
   parse_campaigns_data (PDict [(''result'', PDict [(''count'', PStr ''0'')])]) = Inr [] \<and>
   map_of [(''result'', PDict [(''data'', PDict
       [(''row0'', PDict [(''ID'', PStr ''5'')]), (''total'', PStr ''2''),
        (''rowx'', PStr ''1''), (''row1'', PDict [(''ID'', PStr ''6'')])])])] ''result'' =
     Some (PDict [(''data'', PDict
       [(''row0'', PDict [(''ID'', PStr ''5'')]), (''total'', PStr ''2''),
        (''rowx'', PStr ''1''), (''row1'', PDict [(''ID'', PStr ''6'')])])]) \<and>
   map_of [(''data'', PDict
       [(''row0'', PDict [(''ID'', PStr ''5'')]), (''total'', PStr ''2''),
        (''rowx'', PStr ''1''), (''row1'', PDict [(''ID'', PStr ''6'')])])] ''data'' =
     Some (PDict
       [(''row0'', PDict [(''ID'', PStr ''5'')]), (''total'', PStr ''2''),
        (''rowx'', PStr ''1''), (''row1'', PDict [(''ID'', PStr ''6'')])]) \<and>
   parse_campaigns_data (PDict [(''result'', PDict [(''data'', PDict
       [(''row0'', PDict [(''ID'', PStr ''5'')]), (''total'', PStr ''2''),
        (''rowx'', PStr ''1''), (''row1'', PDict [(''ID'', PStr ''6'')])])])]) =
     Inr [PDict [(''ID'', PStr ''5'')], PDict [(''ID'', PStr ''6'')]]"
proof -
  let ?items = "[(''row0'', PDict [(''ID'', PStr ''5'')]), (''total'', PStr ''2''),
        (''rowx'', PStr ''1''), (''row1'', PDict [(''ID'', PStr ''6'')])]"
  let ?res = "[(''data'', PDict ?items)]"
  let ?doc = "[(''result'', PDict ?res)]"
  have h1: "map_of [(''error'', PStr ''denied'')] ''result'' = None" by simp
  have h2: "map_of [(''result'', PDict [(''count'', PStr ''0'')])] ''result'' =
      Some (PDict [(''count'', PStr ''0'')])" "map_of [(''count'', PStr ''0'')] ''data'' = None"
    by simp_all
  have h3: "map_of ?doc ''result'' = Some (PDict ?res)" "map_of ?res ''data'' = Some (PDict ?items)"
    by simp_all
  have sel: "map snd (filter is_row ?items) = [PDict [(''ID'', PStr ''5'')], PDict [(''ID'', PStr ''6'')]]"
    by (simp add: is_row_def)
  have c1: "parse_campaigns_data (PDict [(''error'', PStr ''denied'')]) = Inr []"
    using C2_extractor [where doc = "[(''error'', PStr ''denied'')]"] h1 by blast
  have c2: "parse_campaigns_data (PDict [(''result'', PDict [(''count'', PStr ''0'')])]) = Inr []"
    using C2_extractor [where doc = "[(''result'', PDict [(''count'', PStr ''0'')])]"
        and res = "[(''count'', PStr ''0'')]"] h2 by blast
  have c3: "parse_campaigns_data (PDict ?doc) = Inr (map snd (filter is_row ?items))"
    using C2_extractor [where doc = ?doc and res = ?res and items = ?items] h3 by blast
  show ?thesis using h1 h2 h3 c1 c2 c3 unfolding sel by blast
qed

text \<open>
  The claim as it stands says that any other shape at the path is ignored. A response
  whose \<open>data\<close> element is empty converts to a mapping with \<open>data\<close> none, on which the
  extractor raises; so it does when \<open>result\<close> is none or a text containing \<open>data\<close>.
\<close>

theorem C2_counterexample:
  "xml_to_dict (Element ''response'' None [Element ''result'' None [Element ''data'' None []]]) =
     PDict [(''result'', PDict [(''data'', PNone)])] \<and>
   parse_campaigns_data (PDict [(''result'', PDict [(''data'', PNone)])]) = Inl AttributeError \<and>
   parse_campaigns_data (PDict [(''result'', PNone)]) = Inl TypeError \<and>
   parse_campaigns_data (PDict [(''result'', PStr ''no data'')]) = Inl TypeError"
  by code_simp

section \<open>The reporter: properties\<close>








section \<open>The entry points: properties\<close>

text \<open>
  Claim C5. When the credential variable is unset or empty, \<open>get_campaigns\<close> raises the
  configuration error with no event before it, in both files; the run of the package
  and the run of the script then leave no event at all: no request is sent and no file
  is written. (The package's \<open>main\<close> catches the error and reports it; in the script
  it ends the run.)
\<close>

theorem C5_missing_credential:
  assumes "auth_token w = None \<or> auth_token w = Some []"
  shows "get_campaigns w = ([], Inl ValueError) \<and>
         get_campaigns_script w = ([], Inl ValueError) \<and>
         main w = [] \<and>
         main_script w = ([], Some ValueError)"
proof -
  have "token_missing w" using assms by (auto simp: token_missing_def)
  then show ?thesis
    by (simp add: get_campaigns_def get_campaigns_script_def main_def main_script_def)
qed

theorem C5_missing_credential_witness:
  "auth_token \<lparr>auth_token = None, start_of_month = ''2026-11-01'',
       fetch_date = ''2026-11-04T10:00:00'', http_reply = Response None ''<response/>'',
       decode = (\<lambda>encoding body. Inr body),
       fromstring = (\<lambda>xml. Some (Element ''response'' None []))\<rparr> = None \<and>
   main \<lparr>auth_token = None, start_of_month = ''2026-11-01'',
       fetch_date = ''2026-11-04T10:00:00'', http_reply = Response None ''<response/>'',
       decode = (\<lambda>encoding body. Inr body),
       fromstring = (\<lambda>xml. Some (Element ''response'' None []))\<rparr> = [] \<and>
   main_script \<lparr>auth_token = Some [], start_of_month = ''2026-11-01'',
       fetch_date = ''2026-11-04T10:00:00'', http_reply = Response None ''<response/>'',
       decode = (\<lambda>encoding body. Inr body),
       fromstring = (\<lambda>xml. Some (Element ''response'' None []))\<rparr> = ([], Some ValueError)"
proof -
  let ?w = "\<lambda>t. \<lparr>auth_token = t, start_of_month = ''2026-11-01'',
       fetch_date = ''2026-11-04T10:00:00'', http_reply = Response None ''<response/>'',
       decode = (\<lambda>encoding body. Inr body),
       fromstring = (\<lambda>xml. Some (Element ''response'' None []))\<rparr>"
  have a: "auth_token (?w None) = None \<or> auth_token (?w None) = Some []" by simp
  have b: "auth_token (?w (Some [])) = None \<or> auth_token (?w (Some [])) = Some []" by simp
  show ?thesis
    using C5_missing_credential [OF a] C5_missing_credential [OF b] by simp
qed

text \<open>What the fetch step makes of each kind of failure.\<close>

lemma fetch_transport_error:
  "http_reply w = RequestFailed \<Longrightarrow> fetch_body w = Inl RequestException"
  by (simp add: fetch_body_def)

lemma fetch_decode_error:
  assumes "http_reply w = Response ct body"
    and "response_encoding (case ct of None \<Rightarrow> [] | Some c \<Rightarrow> c) = Inr encoding"
    and "decode w encoding body = Inl UnicodeDecodeError"
  shows "fetch_body w = Inl UnicodeDecodeError"
  using assms by (simp add: fetch_body_def seq_def)

lemma fetch_parse_error:
  assumes "http_reply w = Response ct body"
    and "response_encoding (case ct of None \<Rightarrow> [] | Some c \<Rightarrow> c) = Inr encoding"
    and "decode w encoding body = Inr xml_content"
    and "fromstring w (clean_xml_response xml_content) = None"
  shows "fetch_body w = Inl ParseError"
  using assms by (simp add: fetch_body_def seq_def)

text \<open>
  In the package all three failures end in \<open>return None\<close>, the run takes the no-data
  branch and writes nothing. In the script the same holds for a transport and an XML
  syntax error.
\<close>

lemma package_failure_no_file:
  assumes "\<not> token_missing w"
    and "fetch_body w = Inl e" and "e \<in> {RequestException, UnicodeDecodeError, ParseError}"
  shows "get_campaigns w = ([HttpGet (''OAuth '' @ the (auth_token w))], Inr PNone) \<and>
         main w = [HttpGet (''OAuth '' @ the (auth_token w))]"
  using assms by (auto simp: get_campaigns_def main_def except_none_def)

lemma script_failure_no_file:
  assumes "\<not> token_missing w"
    and "fetch_body w = Inl e" and "e \<in> {RequestException, ParseError}"
  shows "get_campaigns_script w = ([HttpGet (''OAuth '' @ the (auth_token w))], Inr PNone) \<and>
         main_script w = ([HttpGet (''OAuth '' @ the (auth_token w))], None)"
  using assms by (auto simp: get_campaigns_script_def main_script_def except_none_def)

text \<open>In the script a decoding error is not caught: it ends the run, before any write.\<close>

lemma script_decode_error_uncaught:
  assumes "\<not> token_missing w" and "fetch_body w = Inl UnicodeDecodeError"
  shows "get_campaigns_script w =
           ([HttpGet (''OAuth '' @ the (auth_token w))], Inl UnicodeDecodeError) \<and>
         main_script w = ([HttpGet (''OAuth '' @ the (auth_token w))], Some UnicodeDecodeError)"
  using assms by (simp add: get_campaigns_script_def main_script_def except_none_def)

text \<open>Either way, a run whose fetch step fails writes no file.\<close>

lemma failure_writes_nothing:
  assumes "fetch_body w = Inl e"
  shows "\<not> list_ex is_write (main w) \<and> \<not> list_ex is_write (fst (main_script w))"
  using assms
  by (auto simp: main_def main_script_def get_campaigns_def get_campaigns_script_def
      except_none_def)


section \<open>The extraction on a store: properties\<close>












text \<open>
  The two models of the coercer agree on a row of plain values: the store model raises
  the same error, or leaves at the row's address the mapping the first model returns.
\<close>

lemma agrees_coerce: "agrees hv v \<Longrightarrow> coerce_value_st h hv = coerce_value v"
  by (cases hv; cases v) (simp_all add: coerce_value_st_def coerce_value_def)

lemma rows_agree_lookup:
  assumes "rows_agree hm m"
  shows "(map_of hm f = None \<longleftrightarrow> map_of m f = None) \<and>
         (\<forall>hv v. map_of hm f = Some hv \<longrightarrow> map_of m f = Some v \<longrightarrow> agrees hv v)"
  using assms unfolding rows_agree_def
  by (induction hm m rule: list_all2_induct) auto

lemma rows_agree_dict_set:
  assumes "rows_agree hm m"
  shows "rows_agree (dict_set f (HInt n) hm) (dict_set f (PInt n) m)"
  using assms unfolding rows_agree_def
  by (induction hm m rule: list_all2_induct) auto

lemma coerce_fields_st_refines:
  assumes "h a = Some (HDict hm)" and "rows_agree hm m"
  shows "case coerce_fields fs m of
           Inl e \<Rightarrow> coerce_fields_st fs a h = Inl e
         | Inr m' \<Rightarrow> \<exists>hm'. coerce_fields_st fs a h = Inr (h(a \<mapsto> HDict hm')) \<and> rows_agree hm' m'"
  using assms
proof (induction fs arbitrary: h hm m)
  case Nil
  then have "h = h(a \<mapsto> HDict hm)" by (simp add: fun_upd_idem)
  with Nil.prems(2) have "\<exists>hm'. h = h(a \<mapsto> HDict hm') \<and> rows_agree hm' m" by blast
  then show ?case by simp
next
  case (Cons f fs)
  note look = rows_agree_lookup [OF Cons.prems(2), of f]
  show ?case
  proof (cases "map_of m f")
    case None
    then have "map_of hm f = None" using look by simp
    then show ?thesis
      using None Cons.prems(1) by (simp add: coerce_field_def coerce_field_st_def seq_def)
  next
    case (Some v)
    then obtain hv where hv: "map_of hm f = Some hv" using look by auto
    then have same: "coerce_value_st h hv = coerce_value v"
      using look Some by (intro agrees_coerce) blast
    show ?thesis
    proof (cases "coerce_value v")
      case (Inl e)
      then show ?thesis
        using Some hv same Cons.prems(1)
        by (simp add: coerce_field_def coerce_field_st_def seq_def)
    next
      case (Inr n)
      let ?h1 = "h(a \<mapsto> HDict (dict_set f (HInt n) hm))"
      let ?m1 = "dict_set f (PInt n) m"
      have v1: "coerce_field f m = Inr ?m1"
        using Some Inr by (simp add: coerce_field_def seq_def)
      have s1: "coerce_field_st f a h = Inr ?h1"
        using hv same Inr Cons.prems(1) by (simp add: coerce_field_st_def seq_def)
      have at: "?h1 a = Some (HDict (dict_set f (HInt n) hm))" by simp
      have agree: "rows_agree (dict_set f (HInt n) hm) ?m1"
        using Cons.prems(2) by (rule rows_agree_dict_set)
      note ih = Cons.IH [of ?h1 "dict_set f (HInt n) hm" ?m1, OF at agree]
      have v2: "coerce_fields (f # fs) m = coerce_fields fs ?m1"
        using v1 by (simp add: seq_def)
      have s2: "coerce_fields_st (f # fs) a h = coerce_fields_st fs a ?h1"
        using s1 by (simp add: seq_def)
      show ?thesis
      proof (cases "coerce_fields fs ?m1")
        case (Inl e)
        with ih have "coerce_fields_st fs a ?h1 = Inl e" by simp
        then show ?thesis unfolding v2 s2 using Inl by simp
      next
        case (Inr m')
        with ih obtain hm' where
          run: "coerce_fields_st fs a ?h1 = Inr (?h1(a \<mapsto> HDict hm'))" and
          agree': "rows_agree hm' m'"
          by auto
        have "?h1(a \<mapsto> HDict hm') = h(a \<mapsto> HDict hm')" by simp
        with run have "coerce_fields_st fs a ?h1 = Inr (h(a \<mapsto> HDict hm'))" by simp
        then show ?thesis unfolding v2 s2 using Inr agree' by auto
      qed
    qed
  qed
qed

lemma parse_campaign_value_st_refines:
  assumes "h a = Some (HDict hm)" and "rows_agree hm m"
  shows "case parse_campaign_value m of
           Inl e \<Rightarrow> parse_campaign_value_st a h = Inl e
         | Inr m' \<Rightarrow>
             \<exists>hm'. parse_campaign_value_st a h = Inr (h(a \<mapsto> HDict hm')) \<and> rows_agree hm' m'"
  unfolding parse_campaign_value_def parse_campaign_value_st_def
  using assms by (rule coerce_fields_st_refines)



end
